theory Spec2Isabelle
  imports Complex_Main "HOL-Library.Word"
begin

section \<open>Machine types\<close>

text \<open>
  The simulator is C++ compiled for an LP64 target: \<open>size_t\<close> is an unsigned 64-bit
  integer whose arithmetic wraps around, \<open>int\<close> is a 32-bit two's complement integer, read with \<open>sint\<close>.
  The counters of type \<open>int\<close> are incremented with \<open>++\<close>; the model lets them wrap.
\<close>

type_synonym size_t = "64 word"
type_synonym cint = "32 word"

definition SIZE_MAX :: size_t where
  "SIZE_MAX = - 1"

section \<open>Cache simulator (cache_simulator.hpp, cache_simulator.cpp)\<close>

subsection \<open>CacheBlock\<close>

record CacheBlock =
  valid :: bool
  tag :: size_t
  data_address :: size_t

text \<open>The default constructor \<open>CacheBlock()\<close>.\<close>

definition new_CacheBlock :: CacheBlock where
  "new_CacheBlock = \<lparr>valid = False, tag = 0, data_address = 0\<rparr>"

definition invalidate :: "CacheBlock \<Rightarrow> CacheBlock" where
  "invalidate b = b\<lparr>valid := False, tag := 0, data_address := 0\<rparr>"

subsection \<open>CacheMetrics\<close>

record CacheMetrics =
  total_accesses :: cint
  cache_hits :: cint
  cache_misses :: cint

definition new_CacheMetrics :: CacheMetrics where
  "new_CacheMetrics = \<lparr>total_accesses = 0, cache_hits = 0, cache_misses = 0\<rparr>"

definition record_hit :: "CacheMetrics \<Rightarrow> CacheMetrics" where
  "record_hit m = m\<lparr>total_accesses := total_accesses m + 1, cache_hits := cache_hits m + 1\<rparr>"

definition record_miss :: "CacheMetrics \<Rightarrow> CacheMetrics" where
  "record_miss m = m\<lparr>total_accesses := total_accesses m + 1, cache_misses := cache_misses m + 1\<rparr>"

text \<open>
  The ratios are \<open>double\<close>s in the source. The model computes them over the reals: the
  guard and the constant \<open>0.0\<close> are exact, the rounding of the final division is not
  modelled.
\<close>

definition get_hit_ratio :: "CacheMetrics \<Rightarrow> real" where
  "get_hit_ratio m =
     (if total_accesses m = 0 then 0
      else (100 * real_of_int (sint (cache_hits m))) / real_of_int (sint (total_accesses m)))"

definition get_miss_ratio :: "CacheMetrics \<Rightarrow> real" where
  "get_miss_ratio m =
     (if total_accesses m = 0 then 0
      else (100 * real_of_int (sint (cache_misses m))) / real_of_int (sint (total_accesses m)))"

subsection \<open>CacheLevel\<close>

text \<open>
  \<open>fifo_queue\<close> is a \<open>std::queue<size_t>\<close>: the head of the list is its front, \<open>push\<close>
  appends at the end.
\<close>

record CacheLevel =
  cache_blocks :: "CacheBlock list"
  fifo_queue :: "size_t list"
  cache_size_bytes :: size_t
  block_size_bytes :: size_t
  number_of_blocks :: size_t
  performance_metrics :: CacheMetrics

datatype cache_error = Block_size_zero | Cache_smaller_than_block

text \<open>The constructor throws \<open>std::invalid_argument\<close> on a bad configuration.\<close>

definition new_CacheLevel :: "size_t \<Rightarrow> size_t \<Rightarrow> cache_error + CacheLevel" where
  "new_CacheLevel cache_size block_size =
     (if block_size = 0 then Inl Block_size_zero
      else let n = cache_size div block_size in
        if n = 0 then Inl Cache_smaller_than_block
        else Inr \<lparr>cache_blocks = replicate (unat n) new_CacheBlock,
                  fifo_queue = [],
                  cache_size_bytes = cache_size,
                  block_size_bytes = block_size,
                  number_of_blocks = n,
                  performance_metrics = new_CacheMetrics\<rparr>)"

definition calculate_block_index :: "CacheLevel \<Rightarrow> size_t \<Rightarrow> size_t" where
  "calculate_block_index c memory_address =
     (memory_address div block_size_bytes c) mod number_of_blocks c"

definition extract_tag :: "CacheLevel \<Rightarrow> size_t \<Rightarrow> size_t" where
  "extract_tag c memory_address =
     memory_address div (block_size_bytes c * number_of_blocks c)"

text \<open>
  \<open>evict_oldest_block\<close> pops the front of the queue and invalidates the block with that
  index; on an empty queue it does nothing.
\<close>

definition evict_oldest_block :: "CacheLevel \<Rightarrow> CacheLevel" where
  "evict_oldest_block c =
     (case fifo_queue c of
        [] \<Rightarrow> c
      | oldest_block # rest \<Rightarrow>
          c\<lparr>fifo_queue := rest,
            cache_blocks := (cache_blocks c)
              [unat oldest_block := invalidate (cache_blocks c ! unat oldest_block)]\<rparr>)"

text \<open>
  \<open>access_memory\<close> returns \<open>True\<close> on a hit and \<open>False\<close> on a miss, together with the
  updated cache. Block indices are reduced modulo \<open>number_of_blocks\<close>, the length of
  \<open>cache_blocks\<close>, so every subscript of the source is in range for a cache built by
  the constructor.
\<close>

definition access_memory :: "CacheLevel \<Rightarrow> size_t \<Rightarrow> bool \<times> CacheLevel" where
  "access_memory c memory_address =
     (let block_index = calculate_block_index c memory_address;
          t = extract_tag c memory_address
      in if valid (cache_blocks c ! unat block_index)
            \<and> tag (cache_blocks c ! unat block_index) = t
         then (True, c\<lparr>performance_metrics := record_hit (performance_metrics c)\<rparr>)
         else
           let c1 = c\<lparr>performance_metrics := record_miss (performance_metrics c)\<rparr>;
               c2 = (if valid (cache_blocks c1 ! unat block_index)
                     then evict_oldest_block c1 else c1);
               c3 = c2\<lparr>cache_blocks := (cache_blocks c2)
                      [unat block_index := (cache_blocks c2 ! unat block_index)
                         \<lparr>valid := True, tag := t, data_address := memory_address\<rparr>]\<rparr>
           in (False, c3\<lparr>fifo_queue := fifo_queue c3 @ [block_index]\<rparr>))"

text \<open>The loop \<open>while (!fifo_queue.empty()) fifo_queue.pop()\<close> of \<open>flush_cache\<close>.\<close>

fun pop_all :: "size_t list \<Rightarrow> size_t list" where
  "pop_all [] = []"
| "pop_all (x # q) = pop_all q"

definition flush_cache :: "CacheLevel \<Rightarrow> CacheLevel" where
  "flush_cache c =
     c\<lparr>cache_blocks := map invalidate (cache_blocks c),
       fifo_queue := pop_all (fifo_queue c)\<rparr>"

text \<open>Running a sequence of accesses, collecting the hit/miss results in order.\<close>

fun access_all :: "CacheLevel \<Rightarrow> size_t list \<Rightarrow> bool list \<times> CacheLevel" where
  "access_all c [] = ([], c)"
| "access_all c (a # as) =
     (case access_memory c a of
        (r, c') \<Rightarrow> (case access_all c' as of (rs, c'') \<Rightarrow> (r # rs, c'')))"

section \<open>Physical memory simulator (memory_manager.hpp, memory_manager.cpp)\<close>

subsection \<open>MemorySegment\<close>

record MemorySegment =
  base_address :: size_t
  segment_size :: size_t
  is_available :: bool
  process_id :: cint

definition can_accommodate :: "MemorySegment \<Rightarrow> size_t \<Rightarrow> bool" where
  "can_accommodate seg required_size =
     (is_available seg \<and> segment_size seg \<ge> required_size)"

subsection \<open>MemoryStatistics\<close>

record MemoryStatistics =
  total_allocation_attempts :: cint
  successful_allocations :: cint
  failed_allocations :: cint

definition new_MemoryStatistics :: MemoryStatistics where
  "new_MemoryStatistics =
     \<lparr>total_allocation_attempts = 0, successful_allocations = 0, failed_allocations = 0\<rparr>"

definition record_allocation_attempt :: "MemoryStatistics \<Rightarrow> MemoryStatistics" where
  "record_allocation_attempt st =
     st\<lparr>total_allocation_attempts := total_allocation_attempts st + 1\<rparr>"

definition record_successful_allocation :: "MemoryStatistics \<Rightarrow> MemoryStatistics" where
  "record_successful_allocation st =
     st\<lparr>successful_allocations := successful_allocations st + 1\<rparr>"

definition record_failed_allocation :: "MemoryStatistics \<Rightarrow> MemoryStatistics" where
  "record_failed_allocation st =
     st\<lparr>failed_allocations := failed_allocations st + 1\<rparr>"

definition get_success_rate :: "MemoryStatistics \<Rightarrow> real" where
  "get_success_rate st =
     (if total_allocation_attempts st = 0 then 0
      else (100 * real_of_int (sint (successful_allocations st)))
             / real_of_int (sint (total_allocation_attempts st)))"

subsection \<open>PhysicalMemorySimulator\<close>

datatype AllocationStrategy = FIRST_FIT | BEST_FIT | WORST_FIT

record PhysicalMemorySimulator =
  heap_segments :: "MemorySegment list"
  total_memory_capacity :: size_t
  next_process_identifier :: cint
  current_strategy :: AllocationStrategy
  performance_stats :: MemoryStatistics

definition new_PhysicalMemorySimulator :: PhysicalMemorySimulator where
  "new_PhysicalMemorySimulator =
     \<lparr>heap_segments = [], total_memory_capacity = 0, next_process_identifier = 1,
      current_strategy = FIRST_FIT, performance_stats = new_MemoryStatistics\<rparr>"

definition initialize_memory_pool ::
  "PhysicalMemorySimulator \<Rightarrow> size_t \<Rightarrow> PhysicalMemorySimulator" where
  "initialize_memory_pool s total_size =
     s\<lparr>total_memory_capacity := total_size,
       heap_segments := [\<lparr>base_address = 0, segment_size = total_size,
                          is_available = True, process_id = - 1\<rparr>],
       next_process_identifier := 1,
       performance_stats := new_MemoryStatistics\<rparr>"

definition set_allocation_strategy ::
  "PhysicalMemorySimulator \<Rightarrow> AllocationStrategy \<Rightarrow> PhysicalMemorySimulator" where
  "set_allocation_strategy s strategy = s\<lparr>current_strategy := strategy\<rparr>"

definition reset_simulator :: "PhysicalMemorySimulator \<Rightarrow> PhysicalMemorySimulator" where
  "reset_simulator s =
     s\<lparr>heap_segments := [], total_memory_capacity := 0, next_process_identifier := 1,
       performance_stats := new_MemoryStatistics, current_strategy := FIRST_FIT\<rparr>"

subsection \<open>Placement search\<close>

text \<open>
  The three searches return an \<open>int\<close>: the index of the chosen segment, or \<open>-1\<close>. The
  model returns \<open>Some\<close> index or \<open>None\<close>; the index is a \<open>nat\<close>, which is exact as long
  as the vector holds fewer than \<open>2^31\<close> segments. Each loop is a recursion on the loop
  counter \<open>i\<close>, started at \<open>0\<close>.
\<close>

function first_fit_from :: "MemorySegment list \<Rightarrow> size_t \<Rightarrow> nat \<Rightarrow> nat option" where
  "first_fit_from segs required_size i =
     (if i < length segs then
        (if can_accommodate (segs ! i) required_size then Some i
         else first_fit_from segs required_size (i + 1))
      else None)"
  by pat_completeness auto
termination
  by (relation "measure (\<lambda>(segs, required_size, i). length segs - i)") auto

declare first_fit_from.simps [simp del]

definition find_suitable_segment_first_fit ::
  "MemorySegment list \<Rightarrow> size_t \<Rightarrow> nat option" where
  "find_suitable_segment_first_fit segs required_size =
     first_fit_from segs required_size 0"

function best_fit_from ::
  "MemorySegment list \<Rightarrow> size_t \<Rightarrow> nat \<Rightarrow> nat option \<Rightarrow> size_t \<Rightarrow> nat option" where
  "best_fit_from segs required_size i best_index smallest_suitable_size =
     (if i < length segs then
        (if can_accommodate (segs ! i) required_size
            \<and> segment_size (segs ! i) < smallest_suitable_size
         then best_fit_from segs required_size (i + 1) (Some i) (segment_size (segs ! i))
         else best_fit_from segs required_size (i + 1) best_index smallest_suitable_size)
      else best_index)"
  by pat_completeness auto
termination
  by (relation "measure (\<lambda>(segs, required_size, i, b, m). length segs - i)") auto

declare best_fit_from.simps [simp del]

definition find_suitable_segment_best_fit ::
  "MemorySegment list \<Rightarrow> size_t \<Rightarrow> nat option" where
  "find_suitable_segment_best_fit segs required_size =
     best_fit_from segs required_size 0 None SIZE_MAX"

function worst_fit_from ::
  "MemorySegment list \<Rightarrow> size_t \<Rightarrow> nat \<Rightarrow> nat option \<Rightarrow> size_t \<Rightarrow> nat option" where
  "worst_fit_from segs required_size i worst_index largest_suitable_size =
     (if i < length segs then
        (if can_accommodate (segs ! i) required_size
            \<and> segment_size (segs ! i) > largest_suitable_size
         then worst_fit_from segs required_size (i + 1) (Some i) (segment_size (segs ! i))
         else worst_fit_from segs required_size (i + 1) worst_index largest_suitable_size)
      else worst_index)"
  by pat_completeness auto
termination
  by (relation "measure (\<lambda>(segs, required_size, i, b, m). length segs - i)") auto

declare worst_fit_from.simps [simp del]

definition find_suitable_segment_worst_fit ::
  "MemorySegment list \<Rightarrow> size_t \<Rightarrow> nat option" where
  "find_suitable_segment_worst_fit segs required_size =
     worst_fit_from segs required_size 0 None 0"

subsection \<open>Splitting and merging\<close>

text \<open>
  \<open>vector::insert\<close> before position \<open>k\<close> and \<open>vector::erase\<close> at position \<open>k\<close>.
\<close>

definition insert_at :: "nat \<Rightarrow> 'a \<Rightarrow> 'a list \<Rightarrow> 'a list" where
  "insert_at k x xs = take k xs @ x # drop k xs"

definition erase_at :: "nat \<Rightarrow> 'a list \<Rightarrow> 'a list" where
  "erase_at k xs = take k xs @ drop (k + 1) xs"

definition split_memory_segment ::
  "MemorySegment list \<Rightarrow> nat \<Rightarrow> size_t \<Rightarrow> MemorySegment list" where
  "split_memory_segment segs segment_index allocation_size =
     (let target_segment = segs ! segment_index in
      if segment_size target_segment > allocation_size then
        let remaining_size = segment_size target_segment - allocation_size;
            new_segment_address = base_address target_segment + allocation_size
        in insert_at (segment_index + 1)
             \<lparr>base_address = new_segment_address, segment_size = remaining_size,
              is_available = True, process_id = - 1\<rparr>
             (segs[segment_index := target_segment\<lparr>segment_size := allocation_size\<rparr>])
      else segs)"

definition merge_with_next_segment :: "MemorySegment list \<Rightarrow> nat \<Rightarrow> MemorySegment list" where
  "merge_with_next_segment segs current_index =
     (let current = segs ! current_index;
          next = segs ! (current_index + 1)
      in if base_address current + segment_size current = base_address next then
           erase_at (current_index + 1)
             (segs[current_index :=
                current\<lparr>segment_size := segment_size current + segment_size next\<rparr>])
         else segs)"

text \<open>
  The loop of \<open>merge_adjacent_free_segments\<close>. After a call of
  \<open>merge_with_next_segment\<close> the source decrements \<open>i\<close> and the loop header increments
  it again, so the next iteration looks at the same index, whether or not the call
  merged anything. The loop need not terminate, hence the \<open>option\<close>: \<open>None\<close> is a run
  that never returns. The counter is an \<open>int\<close> compared with
  \<open>static_cast<int>(heap_segments.size()) - 1\<close>; the model keeps it a \<open>nat\<close>, which
  is exact for vectors of fewer than \<open>2^31\<close> segments.
\<close>

partial_function (option) merge_from ::
  "MemorySegment list \<Rightarrow> nat \<Rightarrow> MemorySegment list option" where
  "merge_from segs i =
     (if int i < int (length segs) - 1 then
        (if is_available (segs ! i) \<and> is_available (segs ! (i + 1))
         then merge_from (merge_with_next_segment segs i) i
         else merge_from segs (i + 1))
      else Some segs)"

declare merge_from.simps [code]

definition merge_adjacent_free_segments ::
  "MemorySegment list \<Rightarrow> MemorySegment list option" where
  "merge_adjacent_free_segments segs = merge_from segs 0"

subsection \<open>Allocation and deallocation\<close>

text \<open>
  \<open>allocate_memory_block\<close> returns the assigned process id, or \<open>-1\<close> on failure,
  together with the updated simulator.
\<close>

definition find_suitable_segment ::
  "AllocationStrategy \<Rightarrow> MemorySegment list \<Rightarrow> size_t \<Rightarrow> nat option" where
  "find_suitable_segment strategy segs requested_size =
     (case strategy of
        FIRST_FIT \<Rightarrow> find_suitable_segment_first_fit segs requested_size
      | BEST_FIT \<Rightarrow> find_suitable_segment_best_fit segs requested_size
      | WORST_FIT \<Rightarrow> find_suitable_segment_worst_fit segs requested_size)"

definition allocate_memory_block ::
  "PhysicalMemorySimulator \<Rightarrow> size_t \<Rightarrow> cint \<times> PhysicalMemorySimulator" where
  "allocate_memory_block s requested_size =
     (let stats1 = record_allocation_attempt (performance_stats s) in
      if requested_size = 0 then
        (- 1, s\<lparr>performance_stats := record_failed_allocation stats1\<rparr>)
      else
        case find_suitable_segment (current_strategy s) (heap_segments s) requested_size of
          None \<Rightarrow> (- 1, s\<lparr>performance_stats := record_failed_allocation stats1\<rparr>)
        | Some segment_index \<Rightarrow>
            let assigned_pid = next_process_identifier s;
                segs1 = split_memory_segment (heap_segments s) segment_index requested_size;
                segs2 = segs1[segment_index :=
                          (segs1 ! segment_index)
                            \<lparr>is_available := False, process_id := assigned_pid\<rparr>]
            in (assigned_pid,
                s\<lparr>heap_segments := segs2,
                  next_process_identifier := next_process_identifier s + 1,
                  performance_stats := record_successful_allocation stats1\<rparr>))"

text \<open>
  The range-for loop of \<open>deallocate_memory_block\<close> looks for the first allocated
  segment with the given process id.
\<close>

function find_allocated_from :: "MemorySegment list \<Rightarrow> cint \<Rightarrow> nat \<Rightarrow> nat option" where
  "find_allocated_from segs pid i =
     (if i < length segs then
        (if \<not> is_available (segs ! i) \<and> process_id (segs ! i) = pid then Some i
         else find_allocated_from segs pid (i + 1))
      else None)"
  by pat_completeness auto
termination
  by (relation "measure (\<lambda>(segs, pid, i). length segs - i)") auto

declare find_allocated_from.simps [simp del]

text \<open>
  \<open>deallocate_memory_block\<close> returns \<open>true\<close> when the segment was found and freed and
  \<open>false\<close> when no allocated segment carries the id; \<open>None\<close> is a call that never
  returns because its coalescing pass does not.
\<close>

definition deallocate_memory_block ::
  "PhysicalMemorySimulator \<Rightarrow> cint \<Rightarrow> (bool \<times> PhysicalMemorySimulator) option" where
  "deallocate_memory_block s pid =
     (case find_allocated_from (heap_segments s) pid 0 of
        None \<Rightarrow> Some (False, s)
      | Some k \<Rightarrow>
          (case merge_adjacent_free_segments
                  ((heap_segments s)[k :=
                     (heap_segments s ! k)\<lparr>is_available := True, process_id := - 1\<rparr>]) of
             None \<Rightarrow> None
           | Some segs' \<Rightarrow> Some (True, s\<lparr>heap_segments := segs'\<rparr>)))"

subsection \<open>Sequences of calls\<close>

datatype request = Allocate size_t | Deallocate cint

fun run_request ::
  "PhysicalMemorySimulator \<Rightarrow> request \<Rightarrow> PhysicalMemorySimulator option" where
  "run_request s (Allocate n) = Some (snd (allocate_memory_block s n))"
| "run_request s (Deallocate p) = map_option snd (deallocate_memory_block s p)"

fun run_requests ::
  "PhysicalMemorySimulator \<Rightarrow> request list \<Rightarrow> PhysicalMemorySimulator option" where
  "run_requests s [] = Some s"
| "run_requests s (r # rs) =
     (case run_request s r of None \<Rightarrow> None | Some s' \<Rightarrow> run_requests s' rs)"

section \<open>Invariants of the segment list\<close>

text \<open>
  Adjacent segments touch: the end of each segment, computed as the source does in
  \<open>size_t\<close> arithmetic, is the base of the next one.
\<close>

definition contiguous :: "MemorySegment list \<Rightarrow> bool" where
  "contiguous segs =
     successively (\<lambda>a b. base_address a + segment_size a = base_address b) segs"

text \<open>No two consecutive segments are both free.\<close>

definition no_adjacent_free :: "MemorySegment list \<Rightarrow> bool" where
  "no_adjacent_free segs =
     successively (\<lambda>a b. \<not> (is_available a \<and> is_available b)) segs"

text \<open>
  \<open>covers a segs b\<close>: read as natural numbers, the segments tile the range from \<open>a\<close>
  to \<open>b\<close> in order: the first starts at \<open>a\<close>, each next one starts where the one
  before ends, and the last ends at \<open>b\<close>.
\<close>

fun covers :: "nat \<Rightarrow> MemorySegment list \<Rightarrow> nat \<Rightarrow> bool" where
  "covers a [] b = (a = b)"
| "covers a (seg # segs) b =
     (unat (base_address seg) = a \<and> covers (a + unat (segment_size seg)) segs b)"

definition sorted_by_base :: "MemorySegment list \<Rightarrow> bool" where
  "sorted_by_base segs = sorted_wrt (\<lambda>a b. base_address a \<le> base_address b) segs"

text \<open>
  Every segment ends, without wrap-around, at or before the base of every later one.
\<close>

definition non_overlapping :: "MemorySegment list \<Rightarrow> bool" where
  "non_overlapping segs =
     sorted_wrt (\<lambda>a b. unat (base_address a) + unat (segment_size a) \<le> unat (base_address b))
       segs"

definition total_size :: "MemorySegment list \<Rightarrow> nat" where
  "total_size segs = sum_list (map (\<lambda>seg. unat (segment_size seg)) segs)"

subsection \<open>Placement as the specification words it\<close>

text \<open>
  These two predicates follow the specification, not the code. A segment qualifies for
  a request when it is free and at least as large. Best fit is to pick the qualifying
  segment of minimum size, the earliest one among equals, and to fail only when no
  segment qualifies; worst fit is the same with the maximum size.
\<close>

definition qualifies :: "MemorySegment list \<Rightarrow> size_t \<Rightarrow> nat \<Rightarrow> bool" where
  "qualifies segs n j =
     (j < length segs \<and> is_available (segs ! j) \<and> n \<le> segment_size (segs ! j))"

definition spec_best_fit :: "MemorySegment list \<Rightarrow> size_t \<Rightarrow> nat option \<Rightarrow> bool" where
  "spec_best_fit segs n r =
     (case r of
        None \<Rightarrow> (\<forall>j<length segs. \<not> qualifies segs n j)
      | Some k \<Rightarrow>
          qualifies segs n k
          \<and> (\<forall>j<length segs. qualifies segs n j \<longrightarrow>
                 segment_size (segs ! k) \<le> segment_size (segs ! j))
          \<and> (\<forall>j<k. qualifies segs n j \<longrightarrow>
                 segment_size (segs ! j) \<noteq> segment_size (segs ! k)))"

definition spec_worst_fit :: "MemorySegment list \<Rightarrow> size_t \<Rightarrow> nat option \<Rightarrow> bool" where
  "spec_worst_fit segs n r =
     (case r of
        None \<Rightarrow> (\<forall>j<length segs. \<not> qualifies segs n j)
      | Some k \<Rightarrow>
          qualifies segs n k
          \<and> (\<forall>j<length segs. qualifies segs n j \<longrightarrow>
                 segment_size (segs ! j) \<le> segment_size (segs ! k))
          \<and> (\<forall>j<k. qualifies segs n j \<longrightarrow>
                 segment_size (segs ! j) \<noteq> segment_size (segs ! k)))"

text \<open>The loop invariants of the two searches, at loop counter \<open>i\<close>.\<close>

definition best_inv ::
  "MemorySegment list \<Rightarrow> size_t \<Rightarrow> nat \<Rightarrow> nat option \<Rightarrow> size_t \<Rightarrow> bool" where
  "best_inv segs n i b m =
     (case b of
        None \<Rightarrow> m = SIZE_MAX
                 \<and> (\<forall>j<i. qualifies segs n j \<longrightarrow> segment_size (segs ! j) = SIZE_MAX)
      | Some k \<Rightarrow>
          k < i \<and> qualifies segs n k \<and> segment_size (segs ! k) = m
          \<and> (\<forall>j<i. qualifies segs n j \<longrightarrow> m \<le> segment_size (segs ! j))
          \<and> (\<forall>j<k. qualifies segs n j \<longrightarrow> m < segment_size (segs ! j)))"

definition worst_inv ::
  "MemorySegment list \<Rightarrow> size_t \<Rightarrow> nat \<Rightarrow> nat option \<Rightarrow> size_t \<Rightarrow> bool" where
  "worst_inv segs n i b m =
     (case b of
        None \<Rightarrow> m = 0 \<and> (\<forall>j<i. qualifies segs n j \<longrightarrow> segment_size (segs ! j) = 0)
      | Some k \<Rightarrow>
          k < i \<and> qualifies segs n k \<and> segment_size (segs ! k) = m
          \<and> (\<forall>j<i. qualifies segs n j \<longrightarrow> segment_size (segs ! j) \<le> m)
          \<and> (\<forall>j<k. qualifies segs n j \<longrightarrow> segment_size (segs ! j) < m))"

section \<open>Cache properties\<close>

lemma invalidate_eq: "invalidate b = \<lparr>valid = False, tag = 0, data_address = 0\<rparr>"
  by (simp add: invalidate_def)

lemma map_invalidate:
  "map invalidate bs = replicate (length bs) \<lparr>valid = False, tag = 0, data_address = 0\<rparr>"
  by (induction bs) (simp_all add: invalidate_eq)

lemma pop_all_empty: "pop_all q = []"
  by (induction q) simp_all

text \<open>
  C1. The claim: whenever an access evicts (a miss on a valid block with another tag),
  the index popped from the front of the FIFO queue is the index of the block being
  overwritten. The code does not do that. On a cache of four blocks of 16 bytes, after
  the accesses 0 and 16 the queue is \<open>[0, 1]\<close>. The access 80 maps to block 1, which is
  valid with another tag, so \<open>evict_oldest_block\<close> runs: it pops index 0 and invalidates
  block 0, which is not the block being overwritten and still held address 0.
\<close>

theorem evict_oldest_block_wrong_index:
  "case new_CacheLevel 64 16 of
     Inl e \<Rightarrow> False
   | Inr c \<Rightarrow>
       (case access_all c [0, 16] of
          (rs, c2) \<Rightarrow>
            calculate_block_index c2 80 = 1
            \<and> valid (cache_blocks c2 ! 1)
            \<and> tag (cache_blocks c2 ! 1) \<noteq> extract_tag c2 80
            \<and> fifo_queue c2 = [0, 1]
            \<and> cache_blocks c2 ! 0 = \<lparr>valid = True, tag = 0, data_address = 0\<rparr>
            \<and> fst (access_memory c2 80) = False
            \<and> cache_blocks (snd (access_memory c2 80)) ! 0
                 = \<lparr>valid = False, tag = 0, data_address = 0\<rparr>
            \<and> fifo_queue (snd (access_memory c2 80)) = [1, 1])"
  by code_simp

text \<open>
  C7. On a fresh cache of capacity 64 with blocks of 16 bytes (four blocks) the accesses
  0, 0, 64, 0 give miss, hit, miss, miss. Before the third access block 0 holds tag 0
  and the queue is \<open>[0]\<close>; address 64 maps to index 0 with tag 1, the eviction
  invalidates block 0, and the access leaves tag 1 there.
\<close>

theorem cache_scenario:
  "case new_CacheLevel 64 16 of
     Inl e \<Rightarrow> False
   | Inr c \<Rightarrow>
       length (cache_blocks c) = 4
       \<and> fst (access_all c [0, 0, 64, 0]) = [False, True, False, False]
       \<and> (case access_all c [0, 0] of
            (rs, c2) \<Rightarrow>
              cache_blocks c2 ! 0 = \<lparr>valid = True, tag = 0, data_address = 0\<rparr>
              \<and> fifo_queue c2 = [0]
              \<and> calculate_block_index c2 64 = 0
              \<and> extract_tag c2 64 = 1
              \<and> cache_blocks (evict_oldest_block c2) ! 0
                   = \<lparr>valid = False, tag = 0, data_address = 0\<rparr>
              \<and> cache_blocks (snd (access_memory c2 64)) ! 0
                   = \<lparr>valid = True, tag = 1, data_address = 64\<rparr>)"
  by code_simp

text \<open>
  C8. \<open>flush_cache\<close> leaves the metrics (total accesses, hits, misses) as they were;
  after it every block is invalid with tag 0 and stored address 0 and the FIFO queue is
  empty; flushing a flushed cache changes nothing at all.
\<close>

theorem flush_cache_idempotent:
  "performance_metrics (flush_cache c) = performance_metrics c
   \<and> cache_blocks (flush_cache c)
       = replicate (length (cache_blocks c)) \<lparr>valid = False, tag = 0, data_address = 0\<rparr>
   \<and> fifo_queue (flush_cache c) = []
   \<and> flush_cache (flush_cache c) = flush_cache c"
  by (simp add: flush_cache_def map_invalidate invalidate_eq pop_all_empty)

section \<open>Derived ratios\<close>

text \<open>
  C9. Each derived ratio is exactly 0 when its denominator is 0: the allocator's success
  rate when no allocation attempt has been recorded, a cache level's hit ratio and miss
  ratio when no access has been recorded.
\<close>

theorem ratio_zero_denominator:
  "(total_allocation_attempts st = 0 \<longrightarrow> get_success_rate st = 0)
   \<and> (total_accesses m = 0 \<longrightarrow> get_hit_ratio m = 0 \<and> get_miss_ratio m = 0)"
  by (simp add: get_success_rate_def get_hit_ratio_def get_miss_ratio_def)

theorem ratio_zero_denominator_witness:
  "total_allocation_attempts new_MemoryStatistics = 0
   \<and> get_success_rate new_MemoryStatistics = 0
   \<and> total_accesses new_CacheMetrics = 0
   \<and> get_hit_ratio new_CacheMetrics = 0 \<and> get_miss_ratio new_CacheMetrics = 0"
  using ratio_zero_denominator [of new_MemoryStatistics new_CacheMetrics]
  by (simp add: new_MemoryStatistics_def new_CacheMetrics_def)

section \<open>Allocator: failure paths\<close>

lemma first_fit_from_none:
  "\<forall>seg \<in> set segs. \<not> can_accommodate seg n \<Longrightarrow> first_fit_from segs n i = None"
  by (induction segs n i rule: first_fit_from.induct)
     (subst first_fit_from.simps, simp)

lemma best_fit_from_none:
  "\<forall>seg \<in> set segs. \<not> can_accommodate seg n \<Longrightarrow> best_fit_from segs n i b m = b"
  by (induction segs n i b m rule: best_fit_from.induct)
     (subst best_fit_from.simps, simp)

lemma worst_fit_from_none:
  "\<forall>seg \<in> set segs. \<not> can_accommodate seg n \<Longrightarrow> worst_fit_from segs n i b m = b"
  by (induction segs n i b m rule: worst_fit_from.induct)
     (subst worst_fit_from.simps, simp)

lemma find_suitable_segment_none:
  "\<forall>seg \<in> set segs. \<not> can_accommodate seg n \<Longrightarrow> find_suitable_segment strategy segs n = None"
  by (cases strategy)
     (simp_all add: find_suitable_segment_def find_suitable_segment_first_fit_def
        find_suitable_segment_best_fit_def find_suitable_segment_worst_fit_def
        first_fit_from_none best_fit_from_none worst_fit_from_none)

lemma allocate_no_space:
  "n \<noteq> 0 \<Longrightarrow> find_suitable_segment (current_strategy s) (heap_segments s) n = None \<Longrightarrow>
   allocate_memory_block s n =
     (- 1, s\<lparr>performance_stats := (performance_stats s)
              \<lparr>total_allocation_attempts := total_allocation_attempts (performance_stats s) + 1,
               failed_allocations := failed_allocations (performance_stats s) + 1\<rparr>\<rparr>)"
  by (simp add: allocate_memory_block_def record_allocation_attempt_def
      record_failed_allocation_def)

lemma find_allocated_from_none:
  "\<forall>seg \<in> set segs. is_available seg \<or> process_id seg \<noteq> pid \<Longrightarrow>
   find_allocated_from segs pid i = None"
  by (induction segs pid i rule: find_allocated_from.induct)
     (subst find_allocated_from.simps, auto dest: nth_mem)

text \<open>
  C6. \<open>allocate_memory_block\<close> with size 0 returns the failure value \<open>-1\<close>, records one
  attempt and one failure and changes nothing else; \<open>deallocate_memory_block\<close> with an
  id that no allocated segment carries returns \<open>false\<close> and changes nothing. In both
  cases the segment sequence is the one before the call.
\<close>

theorem error_paths_leave_segments:
  "allocate_memory_block s 0 =
     (- 1, s\<lparr>performance_stats := (performance_stats s)
              \<lparr>total_allocation_attempts := total_allocation_attempts (performance_stats s) + 1,
               failed_allocations := failed_allocations (performance_stats s) + 1\<rparr>\<rparr>)
   \<and> heap_segments (snd (allocate_memory_block s 0)) = heap_segments s
   \<and> ((\<forall>seg \<in> set (heap_segments s). is_available seg \<or> process_id seg \<noteq> pid) \<longrightarrow>
        deallocate_memory_block s pid = Some (False, s))"
  by (simp add: allocate_memory_block_def record_allocation_attempt_def
      record_failed_allocation_def deallocate_memory_block_def find_allocated_from_none)

theorem error_paths_leave_segments_witness:
  "fst (allocate_memory_block (initialize_memory_pool new_PhysicalMemorySimulator 1000) 0) = - 1
   \<and> heap_segments (snd (allocate_memory_block
         (initialize_memory_pool new_PhysicalMemorySimulator 1000) 0))
       = heap_segments (initialize_memory_pool new_PhysicalMemorySimulator 1000)
   \<and> heap_segments (initialize_memory_pool new_PhysicalMemorySimulator 1000)
       = [\<lparr>base_address = 0, segment_size = 1000, is_available = True, process_id = - 1\<rparr>]
   \<and> deallocate_memory_block (initialize_memory_pool new_PhysicalMemorySimulator 1000) 7
       = Some (False, initialize_memory_pool new_PhysicalMemorySimulator 1000)"
proof -
  have h: "\<forall>seg \<in> set (heap_segments (initialize_memory_pool new_PhysicalMemorySimulator 1000)).
         is_available seg \<or> process_id seg \<noteq> 7"
    by (simp add: initialize_memory_pool_def)
  from error_paths_leave_segments
         [of "initialize_memory_pool new_PhysicalMemorySimulator 1000" 7] h
  show ?thesis by (simp add: initialize_memory_pool_def)
qed

text \<open>
  C10. \<open>allocate_memory_block\<close> with a non-zero size on a simulator whose segment list
  is empty (the pool was never initialized) returns \<open>-1\<close>, increments the attempt and
  the failure counter and leaves the segment list empty. The value returned is the one
  returned by any simulator in which no segment can take the request (exhaustion).
\<close>

theorem allocate_uninitialized:
  assumes "heap_segments s = []" and "n \<noteq> 0"
  shows "allocate_memory_block s n =
     (- 1, s\<lparr>performance_stats := (performance_stats s)
              \<lparr>total_allocation_attempts := total_allocation_attempts (performance_stats s) + 1,
               failed_allocations := failed_allocations (performance_stats s) + 1\<rparr>\<rparr>)
   \<and> heap_segments (snd (allocate_memory_block s n)) = []
   \<and> (\<forall>s'. (\<forall>seg \<in> set (heap_segments s'). \<not> can_accommodate seg n) \<longrightarrow>
          fst (allocate_memory_block s' n) = fst (allocate_memory_block s n))"
proof -
  have none: "find_suitable_segment (current_strategy s) (heap_segments s) n = None"
    using assms(1) by (simp add: find_suitable_segment_none)
  have r: "allocate_memory_block s n =
     (- 1, s\<lparr>performance_stats := (performance_stats s)
              \<lparr>total_allocation_attempts := total_allocation_attempts (performance_stats s) + 1,
               failed_allocations := failed_allocations (performance_stats s) + 1\<rparr>\<rparr>)"
    using allocate_no_space [OF assms(2) none] .
  have ex: "fst (allocate_memory_block s' n) = fst (allocate_memory_block s n)"
    if "\<forall>seg \<in> set (heap_segments s'). \<not> can_accommodate seg n" for s'
  proof -
    have "find_suitable_segment (current_strategy s') (heap_segments s') n = None"
      using that by (rule find_suitable_segment_none)
    from allocate_no_space [OF assms(2) this] r show ?thesis by simp
  qed
  from r ex assms(1) show ?thesis by simp
qed

theorem allocate_uninitialized_witness:
  "heap_segments new_PhysicalMemorySimulator = [] \<and> (150 :: size_t) \<noteq> 0
   \<and> fst (allocate_memory_block new_PhysicalMemorySimulator 150) = - 1
   \<and> performance_stats (snd (allocate_memory_block new_PhysicalMemorySimulator 150))
       = \<lparr>total_allocation_attempts = 1, successful_allocations = 0, failed_allocations = 1\<rparr>
   \<and> heap_segments (snd (allocate_memory_block new_PhysicalMemorySimulator 150)) = []
   \<and> fst (allocate_memory_block (initialize_memory_pool new_PhysicalMemorySimulator 100) 150)
       = fst (allocate_memory_block new_PhysicalMemorySimulator 150)"
proof -
  have h1: "heap_segments new_PhysicalMemorySimulator = []"
    by (simp add: new_PhysicalMemorySimulator_def)
  have h2: "(150 :: size_t) \<noteq> 0" by simp
  have h3: "\<forall>seg \<in> set (heap_segments (initialize_memory_pool new_PhysicalMemorySimulator 100)).
              \<not> can_accommodate seg 150"
    by (simp add: initialize_memory_pool_def can_accommodate_def)
  from allocate_uninitialized [OF h1 h2] h3 h1 show ?thesis
    by (simp add: new_PhysicalMemorySimulator_def new_MemoryStatistics_def)
qed

section \<open>Coalescing\<close>

lemma length_erase_at: "k < length xs \<Longrightarrow> length (erase_at k xs) = length xs - 1"
  by (simp add: erase_at_def)

lemma nth_erase_at:
  "k < length xs \<Longrightarrow> j < length xs - 1 \<Longrightarrow>
   erase_at k xs ! j = (if j < k then xs ! j else xs ! (j + 1))"
  by (auto simp: erase_at_def nth_append min_def)

lemma contiguous_nth:
  "contiguous segs \<Longrightarrow> Suc i < length segs \<Longrightarrow>
   base_address (segs ! i) + segment_size (segs ! i) = base_address (segs ! Suc i)"
  unfolding contiguous_def by (rule successively_nth)

lemma length_merge_with_next_segment:
  assumes "contiguous segs" and "Suc i < length segs"
  shows "length (merge_with_next_segment segs i) = length segs - 1"
  using assms contiguous_nth [OF assms]
  by (simp add: merge_with_next_segment_def Let_def length_erase_at)

lemma nth_merge_with_next_segment:
  assumes "contiguous segs" and "Suc i < length segs" and "j < length segs - 1"
  shows "merge_with_next_segment segs i ! j =
           (if j < i then segs ! j
            else if j = i then (segs ! i)\<lparr>segment_size :=
                                 segment_size (segs ! i) + segment_size (segs ! Suc i)\<rparr>
            else segs ! (j + 1))"
  using assms contiguous_nth [OF assms(1,2)]
  by (simp add: merge_with_next_segment_def Let_def nth_erase_at)

lemma contiguous_merge_with_next_segment:
  assumes "contiguous segs" and "Suc i < length segs"
  shows "contiguous (merge_with_next_segment segs i)"
  unfolding contiguous_def successively_conv_nth
proof (intro allI impI)
  let ?m = "merge_with_next_segment segs i"
  fix j assume j: "Suc j < length ?m"
  then have j': "Suc j < length segs - 1"
    using length_merge_with_next_segment [OF assms] by simp
  have c0: "base_address (segs ! i) + segment_size (segs ! i) = base_address (segs ! Suc i)"
    using contiguous_nth [OF assms] .
  have c1: "base_address (segs ! j) + segment_size (segs ! j) = base_address (segs ! Suc j)"
    using contiguous_nth [OF assms(1), of j] j' by simp
  have c2: "base_address (segs ! Suc j) + segment_size (segs ! Suc j)
              = base_address (segs ! Suc (Suc j))"
    using contiguous_nth [OF assms(1), of "Suc j"] j' by simp
  have mj: "?m ! j =
           (if j < i then segs ! j
            else if j = i then (segs ! i)\<lparr>segment_size :=
                                 segment_size (segs ! i) + segment_size (segs ! Suc i)\<rparr>
            else segs ! (j + 1))"
    using nth_merge_with_next_segment [OF assms, of j] j' by simp
  have mSj: "?m ! Suc j =
           (if Suc j < i then segs ! Suc j
            else if Suc j = i then (segs ! i)\<lparr>segment_size :=
                                 segment_size (segs ! i) + segment_size (segs ! Suc i)\<rparr>
            else segs ! (Suc j + 1))"
    using nth_merge_with_next_segment [OF assms, of "Suc j"] j' by simp
  consider "Suc j < i" | "Suc j = i" | "j = i" | "i < j" by linarith
  then show "base_address (?m ! j) + segment_size (?m ! j) = base_address (?m ! Suc j)"
  proof cases
    case 1
    then show ?thesis unfolding mj mSj using c1 by simp
  next
    case 2
    then have "j < i" by simp
    with 2 show ?thesis unfolding mj mSj using c1 by auto
  next
    case 3
    then show ?thesis unfolding mj mSj using c0 c2 by (simp add: add.assoc [symmetric])
  next
    case 4
    then show ?thesis unfolding mj mSj using c2 by simp
  qed
qed

lemma merge_from_cond: "(int i < int (length segs) - 1) = (Suc i < length segs)"
  by auto

lemma merge_from_total:
  assumes step: "\<And>xs k. Q xs \<Longrightarrow> Suc k < length xs \<Longrightarrow> Q (merge_with_next_segment xs k)"
    and cont: "\<And>xs. Q xs \<Longrightarrow> contiguous xs"
    and "Q segs"
    and "\<forall>j<i. Suc j < length segs \<longrightarrow> \<not> (is_available (segs ! j) \<and> is_available (segs ! Suc j))"
  shows "\<exists>r. merge_from segs i = Some r \<and> Q r \<and> no_adjacent_free r \<and> length r \<le> length segs"
  using assms(3,4)
proof (induction "length segs - i" arbitrary: segs i rule: less_induct)
  case less
  show ?case
  proof (cases "Suc i < length segs")
    case False
    then have "merge_from segs i = Some segs"
      by (subst merge_from.simps) (simp add: merge_from_cond)
    moreover have "no_adjacent_free segs"
      unfolding no_adjacent_free_def successively_conv_nth
      using less.prems(2) False by auto
    ultimately show ?thesis using less.prems(1) by simp
  next
    case True
    show ?thesis
    proof (cases "is_available (segs ! i) \<and> is_available (segs ! (i + 1))")
      case both: True
      let ?m = "merge_with_next_segment segs i"
      have c: "contiguous segs" using less.prems(1) by (rule cont)
      have len: "length ?m = length segs - 1"
        using length_merge_with_next_segment [OF c True] .
      have q: "Q ?m" using step [OF less.prems(1) True] .
      have pre: "\<forall>j<i. Suc j < length ?m \<longrightarrow>
                   \<not> (is_available (?m ! j) \<and> is_available (?m ! Suc j))"
      proof (intro allI impI)
        fix j assume j: "j < i" "Suc j < length ?m"
        then have "Suc j < length segs - 1" using len by simp
        then have "?m ! j = segs ! j"
          using j(1) by (simp add: nth_merge_with_next_segment [OF c True])
        moreover have "is_available (?m ! Suc j) = is_available (segs ! Suc j)"
        proof (cases "Suc j = i")
          case True
          have "is_available (?m ! i) = is_available (segs ! i)"
            using nth_merge_with_next_segment [OF c \<open>Suc i < length segs\<close>, of i]
              \<open>Suc i < length segs\<close> by simp
          then show ?thesis using True by simp
        next
          case False
          then have "Suc j < i" using j(1) by simp
          then show ?thesis
            using nth_merge_with_next_segment [OF c \<open>Suc i < length segs\<close>, of "Suc j"]
              \<open>Suc j < length segs - 1\<close> by simp
        qed
        ultimately have m: "?m ! j = segs ! j"
          "is_available (?m ! Suc j) = is_available (segs ! Suc j)" by simp_all
        have "Suc j < length segs" using j(1) True by simp
        with less.prems(2) j(1)
        have "\<not> (is_available (segs ! j) \<and> is_available (segs ! Suc j))" by blast
        with m show "\<not> (is_available (?m ! j) \<and> is_available (?m ! Suc j))" by simp
      qed
      have "length ?m - i < length segs - i" using len True by simp
      from less.hyps [OF this q pre]
      obtain r where r: "merge_from ?m i = Some r" "Q r" "no_adjacent_free r"
        "length r \<le> length ?m" by blast
      have "merge_from segs i = Some r"
        using r(1) True both by (subst merge_from.simps) (simp add: merge_from_cond)
      then show ?thesis using r len by simp
    next
      case notboth: False
      have pre: "\<forall>j<i + 1. Suc j < length segs \<longrightarrow>
                   \<not> (is_available (segs ! j) \<and> is_available (segs ! Suc j))"
        using less.prems(2) notboth by (auto simp: less_Suc_eq)
      have "length segs - (i + 1) < length segs - i" using True by simp
      from less.hyps [OF this less.prems(1) pre]
      obtain r where r: "merge_from segs (i + 1) = Some r" "Q r" "no_adjacent_free r"
        "length r \<le> length segs" by blast
      have "merge_from segs i = Some r"
        using r(1) True notboth by (subst merge_from.simps) (auto simp: merge_from_cond)
      then show ?thesis using r by simp
    qed
  qed
qed

text \<open>
  Contiguity is what makes the pass terminate. At an adjacent free pair that does not
  touch, \<open>merge_with_next_segment\<close> changes nothing and the loop looks at the same
  index again, forever.
\<close>

lemma merge_from_stuck:
  assumes "Suc i < length segs"
    and "is_available (segs ! i)" and "is_available (segs ! Suc i)"
    and "base_address (segs ! i) + segment_size (segs ! i) \<noteq> base_address (segs ! Suc i)"
  shows "merge_from segs i = None"
proof (rule ccontr)
  assume "merge_from segs i \<noteq> None"
  then obtain r where r: "merge_from segs i = Some r" by auto
  have same: "merge_with_next_segment segs i = segs"
    using assms(4) by (simp add: merge_with_next_segment_def)
  have "\<not> (segs = segs \<and> i = i)"
  proof (rule merge_from.raw_induct [where P = "\<lambda>xs k y. \<not> (xs = segs \<and> k = i)", OF _ r])
    fix f xs k y
    assume IH: "\<And>xs k y. f xs k = Some y \<Longrightarrow> \<not> (xs = segs \<and> k = i)"
      and body: "(if int k < int (length xs) - 1
                  then if is_available (xs ! k) \<and> is_available (xs ! (k + 1))
                       then f (merge_with_next_segment xs k) k
                       else f xs (k + 1)
                  else Some xs) = Some y"
    show "\<not> (xs = segs \<and> k = i)"
    proof
      assume eq: "xs = segs \<and> k = i"
      then have "f segs i = Some y"
        using body same assms(1,2,3) by (simp add: merge_from_cond)
      from IH [OF this] show False by simp
    qed
  qed
  then show False by simp
qed

lemma merge_adjacent_free_segments_diverges:
  "merge_adjacent_free_segments
     [\<lparr>base_address = 0, segment_size = 100, is_available = True, process_id = - 1\<rparr>,
      \<lparr>base_address = 200, segment_size = 100, is_available = True, process_id = - 1\<rparr>]
   = None"
  unfolding merge_adjacent_free_segments_def
  by (rule merge_from_stuck) simp_all

section \<open>Consequences of the tiling\<close>

lemma covers_le: "covers a segs b \<Longrightarrow> a \<le> b"
proof (induction segs arbitrary: a)
  case Nil
  then show ?case by simp
next
  case (Cons x xs)
  then have "a + unat (segment_size x) \<le> b" by simp
  then show ?case by simp
qed

lemma covers_append:
  "covers a (xs @ ys) b \<longleftrightarrow> (\<exists>m. covers a xs m \<and> covers m ys b)"
  by (induction xs arbitrary: a) auto

lemma covers_total_size: "covers a segs b \<Longrightarrow> a + total_size segs = b"
proof (induction segs arbitrary: a)
  case Nil
  then show ?case by (simp add: total_size_def)
next
  case (Cons x xs)
  then have "a + unat (segment_size x) + total_size xs = b" by simp
  then show ?case by (simp add: total_size_def)
qed

lemma covers_bounds:
  "covers a segs b \<Longrightarrow> seg \<in> set segs \<Longrightarrow>
   a \<le> unat (base_address seg) \<and> unat (base_address seg) + unat (segment_size seg) \<le> b"
proof (induction segs arbitrary: a)
  case Nil
  then show ?case by simp
next
  case (Cons x xs)
  show ?case
  proof (cases "seg = x")
    case True
    then show ?thesis using Cons.prems(1) covers_le [of "a + unat (segment_size x)" xs b]
      by simp
  next
    case False
    then have "seg \<in> set xs" using Cons.prems(2) by simp
    from Cons.IH [OF _ this, of "a + unat (segment_size x)"] Cons.prems(1)
    show ?thesis by simp
  qed
qed

lemma covers_non_overlapping: "covers a segs b \<Longrightarrow> non_overlapping segs"
  unfolding non_overlapping_def
proof (induction segs arbitrary: a)
  case Nil
  then show ?case by simp
next
  case (Cons x xs)
  have "covers (a + unat (segment_size x)) xs b" "unat (base_address x) = a"
    using Cons.prems by simp_all
  then show ?case using Cons.IH covers_bounds [of "a + unat (segment_size x)" xs b]
    by auto
qed

lemma covers_sorted_by_base: "covers a segs b \<Longrightarrow> sorted_by_base segs"
  unfolding sorted_by_base_def
proof (induction segs arbitrary: a)
  case Nil
  then show ?case by simp
next
  case (Cons x xs)
  have "covers (a + unat (segment_size x)) xs b" "unat (base_address x) = a"
    using Cons.prems by simp_all
  then show ?case using Cons.IH covers_bounds [of "a + unat (segment_size x)" xs b]
    by (fastforce simp: word_le_nat_alt)
qed

lemma covers_contiguous: "covers a segs b \<Longrightarrow> contiguous segs"
  unfolding contiguous_def
proof (induction segs arbitrary: a rule: induct_list012)
  case 1
  then show ?case by simp
next
  case (2 x)
  then show ?case by simp
next
  case (3 x y zs)
  have y: "unat (base_address y) = unat (base_address x) + unat (segment_size x)"
    and rest: "covers (a + unat (segment_size x)) (y # zs) b"
    using "3.prems" by simp_all
  have "unat (base_address x) + unat (segment_size x) < 2 ^ LENGTH(64)"
    using unsigned_less [of "base_address y", where 'a = nat] y by simp
  then have "unat (base_address x + segment_size x) = unat (base_address y)"
    using y by (simp add: unat_add_lem [THEN iffD1])
  then have "base_address x + segment_size x = base_address y"
    by (simp add: word_unat_eq_iff)
  then show ?case using "3.IH"(2) [OF rest] by simp
qed

section \<open>Deallocation\<close>

lemma contiguous_mark:
  "contiguous (segs[k := (segs ! k)\<lparr>is_available := a, process_id := p\<rparr>]) = contiguous segs"
proof -
  have "base_address ((segs[k := (segs ! k)\<lparr>is_available := a, process_id := p\<rparr>]) ! j)
          = base_address (segs ! j)
        \<and> segment_size ((segs[k := (segs ! k)\<lparr>is_available := a, process_id := p\<rparr>]) ! j)
          = segment_size (segs ! j)" if "j < length segs" for j
    using that by (cases "j = k") simp_all
  then show ?thesis
    unfolding contiguous_def successively_conv_nth by simp
qed

text \<open>
  C3. The coalescing pass run by \<open>deallocate_memory_block\<close> terminates on every
  contiguous segment list: it returns a list, that list has no two adjacent free
  segments, and every call of \<open>merge_with_next_segment\<close> on a contiguous list removes
  one segment and leaves the list contiguous, so the segment count strictly decreases
  at each merge.
\<close>

theorem coalescing_terminates:
  assumes "contiguous segs"
  shows "(\<exists>r. merge_adjacent_free_segments segs = Some r
              \<and> no_adjacent_free r \<and> length r \<le> length segs)
         \<and> (\<forall>i. Suc i < length segs \<longrightarrow>
                length (merge_with_next_segment segs i) < length segs
                \<and> contiguous (merge_with_next_segment segs i))"
proof -
  have "\<exists>r. merge_from segs 0 = Some r \<and> contiguous r \<and> no_adjacent_free r
             \<and> length r \<le> length segs"
    by (rule merge_from_total [where Q = contiguous])
       (simp_all add: contiguous_merge_with_next_segment assms)
  then have "\<exists>r. merge_adjacent_free_segments segs = Some r
              \<and> no_adjacent_free r \<and> length r \<le> length segs"
    by (auto simp: merge_adjacent_free_segments_def)
  moreover have "length (merge_with_next_segment segs i) < length segs
                \<and> contiguous (merge_with_next_segment segs i)" if "Suc i < length segs" for i
    using length_merge_with_next_segment [OF assms that]
      contiguous_merge_with_next_segment [OF assms that] that by simp
  ultimately show ?thesis by blast
qed

theorem coalescing_terminates_witness:
  "contiguous
     [\<lparr>base_address = 0, segment_size = 200, is_available = True, process_id = - 1\<rparr>,
      \<lparr>base_address = 200, segment_size = 100, is_available = True, process_id = - 1\<rparr>,
      \<lparr>base_address = 300, segment_size = 700, is_available = True, process_id = - 1\<rparr>]
   \<and> merge_adjacent_free_segments
     [\<lparr>base_address = 0, segment_size = 200, is_available = True, process_id = - 1\<rparr>,
      \<lparr>base_address = 200, segment_size = 100, is_available = True, process_id = - 1\<rparr>,
      \<lparr>base_address = 300, segment_size = 700, is_available = True, process_id = - 1\<rparr>]
     = Some [\<lparr>base_address = 0, segment_size = 1000, is_available = True, process_id = - 1\<rparr>]
   \<and> no_adjacent_free
     [\<lparr>base_address = 0, segment_size = 1000, is_available = True, process_id = - 1\<rparr>]
   \<and> length (merge_with_next_segment
     [\<lparr>base_address = 0, segment_size = 200, is_available = True, process_id = - 1\<rparr>,
      \<lparr>base_address = 200, segment_size = 100, is_available = True, process_id = - 1\<rparr>,
      \<lparr>base_address = 300, segment_size = 700, is_available = True, process_id = - 1\<rparr>] 1) < 3"
proof -
  let ?segs = "[\<lparr>base_address = 0, segment_size = 200, is_available = True, process_id = - 1\<rparr>,
      \<lparr>base_address = 200, segment_size = 100, is_available = True, process_id = - 1\<rparr>,
      \<lparr>base_address = 300, segment_size = 700, is_available = True, process_id = - 1 :: cint\<rparr>]"
  have h: "contiguous ?segs" by (simp add: contiguous_def)
  have e: "merge_adjacent_free_segments ?segs
     = Some [\<lparr>base_address = 0, segment_size = 1000, is_available = True, process_id = - 1\<rparr>]"
    by code_simp
  from coalescing_terminates [OF h]
  have t: "\<exists>r. merge_adjacent_free_segments ?segs = Some r
              \<and> no_adjacent_free r \<and> length r \<le> length ?segs"
    and d: "\<forall>i. Suc i < length ?segs \<longrightarrow>
                length (merge_with_next_segment ?segs i) < length ?segs
                \<and> contiguous (merge_with_next_segment ?segs i)"
    by blast+
  from d [rule_format, of 1] have "length (merge_with_next_segment ?segs 1) < 3" by simp
  with t h e show ?thesis by simp
qed

text \<open>
  C4. On a contiguous segment list every call of \<open>deallocate_memory_block\<close> returns.
  When it returns \<open>true\<close> no two consecutive segments of the new list are both free;
  when it returns \<open>false\<close> the simulator is unchanged. So if no two consecutive
  segments were both free before the call, none are after it.
\<close>

theorem deallocate_no_adjacent_free:
  assumes "contiguous (heap_segments s)"
  shows "\<exists>b s'. deallocate_memory_block s pid = Some (b, s')
           \<and> (b \<longrightarrow> no_adjacent_free (heap_segments s'))
           \<and> (\<not> b \<longrightarrow> s' = s)
           \<and> (no_adjacent_free (heap_segments s) \<longrightarrow> no_adjacent_free (heap_segments s'))"
proof (cases "find_allocated_from (heap_segments s) pid 0")
  case None
  then show ?thesis by (auto simp: deallocate_memory_block_def)
next
  case (Some k)
  let ?segs = "(heap_segments s)[k :=
                 (heap_segments s ! k)\<lparr>is_available := True, process_id := - 1\<rparr>]"
  have c: "contiguous ?segs" using assms by (simp add: contiguous_mark)
  have "\<exists>r. merge_from ?segs 0 = Some r \<and> contiguous r \<and> no_adjacent_free r
             \<and> length r \<le> length ?segs"
    by (rule merge_from_total [where Q = contiguous])
       (simp_all add: contiguous_merge_with_next_segment c)
  then obtain r where r: "merge_adjacent_free_segments ?segs = Some r" "no_adjacent_free r"
    by (auto simp: merge_adjacent_free_segments_def)
  have "deallocate_memory_block s pid = Some (True, s\<lparr>heap_segments := r\<rparr>)"
    using Some r(1) by (simp add: deallocate_memory_block_def)
  then show ?thesis using r(2)
    by (intro exI [of _ True] exI [of _ "s\<lparr>heap_segments := r\<rparr>"]) simp
qed

theorem deallocate_no_adjacent_free_witness:
  "contiguous
     [\<lparr>base_address = 0, segment_size = 200, is_available = False, process_id = 1\<rparr>,
      \<lparr>base_address = 200, segment_size = 800, is_available = True, process_id = - 1\<rparr>]
   \<and> no_adjacent_free
     [\<lparr>base_address = 0, segment_size = 200, is_available = False, process_id = 1\<rparr>,
      \<lparr>base_address = 200, segment_size = 800, is_available = True, process_id = - 1\<rparr>]
   \<and> map_option (\<lambda>(b, s'). (b, heap_segments s'))
       (deallocate_memory_block
         (new_PhysicalMemorySimulator\<lparr>heap_segments :=
            [\<lparr>base_address = 0, segment_size = 200, is_available = False, process_id = 1\<rparr>,
             \<lparr>base_address = 200, segment_size = 800, is_available = True, process_id = - 1\<rparr>],
            total_memory_capacity := 1000, next_process_identifier := 2\<rparr>) 1)
     = Some (True,
         [\<lparr>base_address = 0, segment_size = 1000, is_available = True, process_id = - 1\<rparr>])
   \<and> no_adjacent_free
         [\<lparr>base_address = 0, segment_size = 1000, is_available = True, process_id = - 1\<rparr>]"
proof -
  let ?segs = "[\<lparr>base_address = 0, segment_size = 200, is_available = False, process_id = 1\<rparr>,
      \<lparr>base_address = 200, segment_size = 800, is_available = True, process_id = - 1 :: cint\<rparr>]"
  let ?s = "new_PhysicalMemorySimulator\<lparr>heap_segments := ?segs,
            total_memory_capacity := 1000, next_process_identifier := 2\<rparr>"
  have h: "contiguous (heap_segments ?s)" by (simp add: contiguous_def)
  have n: "no_adjacent_free (heap_segments ?s)" by (simp add: no_adjacent_free_def)
  have e: "map_option (\<lambda>(b, s'). (b, heap_segments s')) (deallocate_memory_block ?s 1)
     = Some (True,
         [\<lparr>base_address = 0, segment_size = 1000, is_available = True, process_id = - 1\<rparr>])"
    by code_simp
  from deallocate_no_adjacent_free [OF h, of 1] h n e show ?thesis by auto
qed

section \<open>The tiling is preserved\<close>

lemma covers_mid:
  "covers a (xs @ t # ys) b \<longleftrightarrow>
     (\<exists>m. covers a xs m \<and> unat (base_address t) = m
          \<and> covers (m + unat (segment_size t)) ys b)"
  by (simp add: covers_append)

lemma split_memory_segment_eq:
  assumes "idx < length segs" and "segment_size (segs ! idx) > n"
  shows "split_memory_segment segs idx n =
           take idx segs
           @ (segs ! idx)\<lparr>segment_size := n\<rparr>
           # \<lparr>base_address = base_address (segs ! idx) + n,
              segment_size = segment_size (segs ! idx) - n,
              is_available = True, process_id = - 1\<rparr>
           # drop (Suc idx) segs"
  using assms
  by (simp add: split_memory_segment_def Let_def insert_at_def upd_conv_take_nth_drop
      take_Suc_conv_app_nth)

lemma covers_split_memory_segment:
  assumes cov: "covers a segs b" and idx: "idx < length segs" and b: "b < 2 ^ 64"
  shows "covers a (split_memory_segment segs idx n) b"
proof (cases "segment_size (segs ! idx) > n")
  case False
  then show ?thesis using cov by (simp add: split_memory_segment_def)
next
  case True
  let ?t = "segs ! idx"
  have "covers a (take idx segs @ ?t # drop (Suc idx) segs) b"
    using cov id_take_nth_drop [OF idx] by simp
  then obtain m where m: "covers a (take idx segs) m" "unat (base_address ?t) = m"
    "covers (m + unat (segment_size ?t)) (drop (Suc idx) segs) b"
    unfolding covers_mid by blast
  have lt: "unat n < unat (segment_size ?t)" using True by (simp add: word_less_nat_alt)
  have "m + unat (segment_size ?t) \<le> b" using covers_le [OF m(3)] .
  then have "unat (base_address ?t) + unat n < 2 ^ LENGTH(64)" using m(2) lt b by simp
  then have base: "unat (base_address ?t + n) = m + unat n"
    using m(2) by (simp add: unat_add_lem [THEN iffD1])
  have "n \<le> segment_size ?t" using True by simp
  then have size: "unat (segment_size ?t - n) = unat (segment_size ?t) - unat n"
    by (rule unat_sub)
  have "covers a (take idx segs
           @ ?t\<lparr>segment_size := n\<rparr>
           # \<lparr>base_address = base_address ?t + n,
              segment_size = segment_size ?t - n,
              is_available = True, process_id = - 1\<rparr>
           # drop (Suc idx) segs) b"
    unfolding covers_mid using m lt base size by simp
  then show ?thesis using split_memory_segment_eq [OF idx True] by simp
qed

lemma covers_mark:
  "covers a (segs[k := (segs ! k)\<lparr>is_available := v, process_id := p\<rparr>]) b = covers a segs b"
proof (cases "k < length segs")
  case False
  then show ?thesis by (simp add: list_update_beyond)
next
  case True
  have "covers a (take k segs @ (segs ! k)\<lparr>is_available := v, process_id := p\<rparr>
                    # drop (Suc k) segs) b
        = covers a (take k segs @ segs ! k # drop (Suc k) segs) b"
    unfolding covers_mid by simp
  then show ?thesis
    using id_take_nth_drop [OF True] upd_conv_take_nth_drop [OF True] by simp
qed

lemma merge_with_next_segment_eq:
  assumes "Suc i < length segs"
    and "base_address (segs ! i) + segment_size (segs ! i) = base_address (segs ! Suc i)"
  shows "merge_with_next_segment segs i =
           take i segs
           @ (segs ! i)\<lparr>segment_size := segment_size (segs ! i) + segment_size (segs ! Suc i)\<rparr>
           # drop (Suc (Suc i)) segs"
  using assms
  by (simp add: merge_with_next_segment_def Let_def erase_at_def upd_conv_take_nth_drop
      take_Suc_conv_app_nth)

lemma covers_merge_with_next_segment:
  assumes cov: "covers a segs b" and i: "Suc i < length segs" and b: "b < 2 ^ 64"
  shows "covers a (merge_with_next_segment segs i) b"
proof (cases "base_address (segs ! i) + segment_size (segs ! i) = base_address (segs ! Suc i)")
  case False
  then show ?thesis using cov by (simp add: merge_with_next_segment_def)
next
  case True
  let ?c = "segs ! i" and ?n = "segs ! Suc i"
  have i': "i < length segs" using i by simp
  have "segs = take i segs @ ?c # drop (Suc i) segs"
    using id_take_nth_drop [OF i'] .
  also have "drop (Suc i) segs = ?n # drop (Suc (Suc i)) segs"
    using Cons_nth_drop_Suc [OF i] by simp
  finally have "covers a (take i segs @ ?c # ?n # drop (Suc (Suc i)) segs) b"
    using cov by simp
  then obtain m where m: "covers a (take i segs) m" "unat (base_address ?c) = m"
    "unat (base_address ?n) = m + unat (segment_size ?c)"
    "covers (m + unat (segment_size ?c) + unat (segment_size ?n)) (drop (Suc (Suc i)) segs) b"
    unfolding covers_mid by auto
  have "m + unat (segment_size ?c) + unat (segment_size ?n) \<le> b" using covers_le [OF m(4)] .
  then have "unat (segment_size ?c) + unat (segment_size ?n) < 2 ^ LENGTH(64)" using b by simp
  then have size: "unat (segment_size ?c + segment_size ?n)
                     = unat (segment_size ?c) + unat (segment_size ?n)"
    by (simp add: unat_add_lem [THEN iffD1])
  have "covers a (take i segs
           @ ?c\<lparr>segment_size := segment_size ?c + segment_size ?n\<rparr>
           # drop (Suc (Suc i)) segs) b"
    unfolding covers_mid using m size by (simp add: add.assoc)
  then show ?thesis using merge_with_next_segment_eq [OF i True] by simp
qed

section \<open>Allocation and sequences of calls\<close>

lemma first_fit_from_Some:
  "first_fit_from segs n i = Some k \<Longrightarrow> k < length segs \<and> can_accommodate (segs ! k) n"
proof (induction segs n i rule: first_fit_from.induct)
  case (1 segs n i)
  from "1.prems" show ?case
    by (subst (asm) first_fit_from.simps) (auto split: if_splits dest: "1.IH")
qed

lemma best_fit_from_Some:
  "best_fit_from segs n i b m = Some k \<Longrightarrow>
   \<forall>j. b = Some j \<longrightarrow> j < length segs \<and> can_accommodate (segs ! j) n \<Longrightarrow>
   k < length segs \<and> can_accommodate (segs ! k) n"
proof (induction segs n i b m rule: best_fit_from.induct)
  case (1 segs n i b m)
  show ?case
  proof (cases "i < length segs")
    case False
    then have "b = Some k" using "1.prems"(1) by (subst (asm) best_fit_from.simps) simp
    then show ?thesis using "1.prems"(2) by simp
  next
    case True
    show ?thesis
    proof (cases "can_accommodate (segs ! i) n \<and> segment_size (segs ! i) < m")
      case take: True
      then have "best_fit_from segs n (i + 1) (Some i) (segment_size (segs ! i)) = Some k"
        using "1.prems"(1) True by (subst (asm) best_fit_from.simps) simp
      from "1.IH"(1) [OF True take this] True take show ?thesis by simp
    next
      case skip: False
      then have "best_fit_from segs n (i + 1) b m = Some k"
        using "1.prems"(1) True by (subst (asm) best_fit_from.simps) auto
      from "1.IH"(2) [OF True skip this "1.prems"(2)] show ?thesis .
    qed
  qed
qed

lemma worst_fit_from_Some:
  "worst_fit_from segs n i b m = Some k \<Longrightarrow>
   \<forall>j. b = Some j \<longrightarrow> j < length segs \<and> can_accommodate (segs ! j) n \<Longrightarrow>
   k < length segs \<and> can_accommodate (segs ! k) n"
proof (induction segs n i b m rule: worst_fit_from.induct)
  case (1 segs n i b m)
  show ?case
  proof (cases "i < length segs")
    case False
    then have "b = Some k" using "1.prems"(1) by (subst (asm) worst_fit_from.simps) simp
    then show ?thesis using "1.prems"(2) by simp
  next
    case True
    show ?thesis
    proof (cases "can_accommodate (segs ! i) n \<and> segment_size (segs ! i) > m")
      case take: True
      then have "worst_fit_from segs n (i + 1) (Some i) (segment_size (segs ! i)) = Some k"
        using "1.prems"(1) True by (subst (asm) worst_fit_from.simps) simp
      from "1.IH"(1) [OF True take this] True take show ?thesis by simp
    next
      case skip: False
      then have "worst_fit_from segs n (i + 1) b m = Some k"
        using "1.prems"(1) True by (subst (asm) worst_fit_from.simps) auto
      from "1.IH"(2) [OF True skip this "1.prems"(2)] show ?thesis .
    qed
  qed
qed

lemma find_suitable_segment_Some:
  assumes "find_suitable_segment strategy segs n = Some k"
  shows "k < length segs \<and> can_accommodate (segs ! k) n"
proof (cases strategy)
  case FIRST_FIT
  then show ?thesis using assms first_fit_from_Some [of segs n 0 k]
    by (simp add: find_suitable_segment_def find_suitable_segment_first_fit_def)
next
  case BEST_FIT
  then show ?thesis using assms best_fit_from_Some [of segs n 0 None SIZE_MAX k]
    by (simp add: find_suitable_segment_def find_suitable_segment_best_fit_def)
next
  case WORST_FIT
  then show ?thesis using assms worst_fit_from_Some [of segs n 0 None 0 k]
    by (simp add: find_suitable_segment_def find_suitable_segment_worst_fit_def)
qed

lemma length_split_memory_segment:
  "idx < length segs \<Longrightarrow> idx < length (split_memory_segment segs idx n)"
  by (auto simp: split_memory_segment_def Let_def insert_at_def)

lemma covers_allocate_memory_block:
  assumes "covers a (heap_segments s) b" and "b < 2 ^ 64"
  shows "covers a (heap_segments (snd (allocate_memory_block s n))) b"
proof (cases "n = 0")
  case True
  then show ?thesis using assms(1) by (simp add: allocate_memory_block_def)
next
  case False
  show ?thesis
  proof (cases "find_suitable_segment (current_strategy s) (heap_segments s) n")
    case None
    then show ?thesis using assms(1) False by (simp add: allocate_memory_block_def)
  next
    case (Some idx)
    then have "idx < length (heap_segments s)"
      using find_suitable_segment_Some by blast
    then have "covers a (split_memory_segment (heap_segments s) idx n) b"
      using assms by (intro covers_split_memory_segment)
    then show ?thesis using Some False
      by (simp add: allocate_memory_block_def Let_def covers_mark)
  qed
qed

lemma covers_deallocate_memory_block:
  assumes "covers a (heap_segments s) b" and "b < 2 ^ 64"
  shows "\<exists>r s'. deallocate_memory_block s pid = Some (r, s') \<and> covers a (heap_segments s') b
           \<and> total_memory_capacity s' = total_memory_capacity s"
proof (cases "find_allocated_from (heap_segments s) pid 0")
  case None
  then show ?thesis using assms(1) by (auto simp: deallocate_memory_block_def)
next
  case (Some k)
  let ?segs = "(heap_segments s)[k :=
                 (heap_segments s ! k)\<lparr>is_available := True, process_id := - 1\<rparr>]"
  have c: "covers a ?segs b" using assms(1) by (simp add: covers_mark)
  have "\<exists>r. merge_from ?segs 0 = Some r \<and> covers a r b \<and> no_adjacent_free r
             \<and> length r \<le> length ?segs"
  proof (rule merge_from_total [where Q = "\<lambda>xs. covers a xs b"])
    show "covers a (merge_with_next_segment xs k) b"
      if "covers a xs b" and "Suc k < length xs" for xs k
      using covers_merge_with_next_segment [OF that assms(2)] .
    show "contiguous xs" if "covers a xs b" for xs
      using covers_contiguous [OF that] .
    show "covers a ?segs b" using c .
    show "\<forall>j<0. Suc j < length ?segs \<longrightarrow>
            \<not> (is_available (?segs ! j) \<and> is_available (?segs ! Suc j))"
      by simp
  qed
  then obtain r where r: "merge_adjacent_free_segments ?segs = Some r" "covers a r b"
    by (auto simp: merge_adjacent_free_segments_def)
  have "deallocate_memory_block s pid = Some (True, s\<lparr>heap_segments := r\<rparr>)"
    using Some r(1) by (simp add: deallocate_memory_block_def)
  then show ?thesis using r(2) by auto
qed

lemma total_memory_capacity_allocate:
  "total_memory_capacity (snd (allocate_memory_block s n)) = total_memory_capacity s"
  by (simp add: allocate_memory_block_def Let_def split: option.splits)

lemma covers_run_requests:
  assumes "covers a (heap_segments s) b" and "b < 2 ^ 64"
  shows "\<exists>s'. run_requests s reqs = Some s' \<and> covers a (heap_segments s') b
           \<and> total_memory_capacity s' = total_memory_capacity s"
  using assms(1)
proof (induction reqs arbitrary: s)
  case Nil
  then show ?case by simp
next
  case (Cons req reqs)
  show ?case
  proof (cases req)
    case (Allocate n)
    let ?s1 = "snd (allocate_memory_block s n)"
    have "covers a (heap_segments ?s1) b"
      using covers_allocate_memory_block [OF Cons.prems assms(2)] .
    from Cons.IH [OF this] show ?thesis
      using Allocate by (simp add: total_memory_capacity_allocate)
  next
    case (Deallocate p)
    from covers_deallocate_memory_block [OF Cons.prems assms(2), of p]
    obtain r s1 where s1: "deallocate_memory_block s p = Some (r, s1)"
      "covers a (heap_segments s1) b" "total_memory_capacity s1 = total_memory_capacity s"
      by blast
    from Cons.IH [OF s1(2)] show ?thesis
      using Deallocate s1(1,3) by simp
  qed
qed

text \<open>
  C2. After every sequence of \<open>allocate_memory_block\<close> and \<open>deallocate_memory_block\<close>
  calls on a simulator initialized with capacity \<open>C\<close>, every call has returned and the
  segment list partitions \<open>[0, C)\<close> exactly: it tiles the range from 0 to \<open>C\<close>, is
  sorted by base address, contiguous, non-overlapping, and its sizes sum to \<open>C\<close>.
\<close>

theorem segment_list_partitions:
  "\<exists>s'. run_requests (initialize_memory_pool s0 C) reqs = Some s'
      \<and> total_memory_capacity s' = C
      \<and> covers 0 (heap_segments s') (unat C)
      \<and> sorted_by_base (heap_segments s')
      \<and> contiguous (heap_segments s')
      \<and> non_overlapping (heap_segments s')
      \<and> total_size (heap_segments s') = unat C"
proof -
  have init: "covers 0 (heap_segments (initialize_memory_pool s0 C)) (unat C)"
    by (simp add: initialize_memory_pool_def)
  have bound: "unat C < 2 ^ 64"
    using unsigned_less [of C, where 'a = nat] by simp
  from covers_run_requests [OF init bound, of reqs]
  obtain s' where s': "run_requests (initialize_memory_pool s0 C) reqs = Some s'"
    "covers 0 (heap_segments s') (unat C)"
    "total_memory_capacity s' = total_memory_capacity (initialize_memory_pool s0 C)"
    by blast
  have "total_memory_capacity s' = C" using s'(3) by (simp add: initialize_memory_pool_def)
  moreover have "total_size (heap_segments s') = unat C"
    using covers_total_size [OF s'(2)] by simp
  ultimately show ?thesis
    using s'(1,2) covers_sorted_by_base [OF s'(2)] covers_contiguous [OF s'(2)]
      covers_non_overlapping [OF s'(2)]
    by simp
qed

theorem segment_list_partitions_witness:
  "map_option heap_segments
     (run_requests (initialize_memory_pool new_PhysicalMemorySimulator 1000)
        [Allocate 200, Allocate 100, Deallocate 1])
     = Some [\<lparr>base_address = 0, segment_size = 200, is_available = True, process_id = - 1\<rparr>,
             \<lparr>base_address = 200, segment_size = 100, is_available = False, process_id = 2\<rparr>,
             \<lparr>base_address = 300, segment_size = 700, is_available = True, process_id = - 1\<rparr>]
   \<and> covers 0
        [\<lparr>base_address = 0, segment_size = 200, is_available = True, process_id = - 1\<rparr>,
         \<lparr>base_address = 200, segment_size = 100, is_available = False, process_id = 2\<rparr>,
         \<lparr>base_address = 300, segment_size = 700, is_available = True, process_id = - 1\<rparr>]
        (unat (1000 :: size_t))
   \<and> non_overlapping
        [\<lparr>base_address = 0, segment_size = 200, is_available = True, process_id = - 1\<rparr>,
         \<lparr>base_address = 200, segment_size = 100, is_available = False, process_id = 2\<rparr>,
         \<lparr>base_address = 300, segment_size = 700, is_available = True, process_id = - 1\<rparr>]
   \<and> total_size
        [\<lparr>base_address = 0, segment_size = 200, is_available = True, process_id = - 1\<rparr>,
         \<lparr>base_address = 200, segment_size = 100, is_available = False, process_id = 2\<rparr>,
         \<lparr>base_address = 300, segment_size = 700, is_available = True, process_id = - 1\<rparr>]
       = unat (1000 :: size_t)"
proof -
  have e: "map_option heap_segments
     (run_requests (initialize_memory_pool new_PhysicalMemorySimulator 1000)
        [Allocate 200, Allocate 100, Deallocate 1])
     = Some [\<lparr>base_address = 0, segment_size = 200, is_available = True, process_id = - 1\<rparr>,
             \<lparr>base_address = 200, segment_size = 100, is_available = False, process_id = 2\<rparr>,
             \<lparr>base_address = 300, segment_size = 700, is_available = True, process_id = - 1\<rparr>]"
    by code_simp
  from segment_list_partitions [of new_PhysicalMemorySimulator 1000
         "[Allocate 200, Allocate 100, Deallocate 1]"] e
  show ?thesis by auto
qed

section \<open>Placement search\<close>

lemma qualifies_can_accommodate:
  "i < length segs \<Longrightarrow> qualifies segs n i = can_accommodate (segs ! i) n"
  by (simp add: qualifies_def can_accommodate_def)

lemma not_less_SIZE_MAX: "\<not> x < SIZE_MAX \<Longrightarrow> x = SIZE_MAX"
  using word_order.not_eq_extremum [of x] by (auto simp: SIZE_MAX_def)

lemma le_SIZE_MAX: "x \<le> SIZE_MAX"
  by (simp add: SIZE_MAX_def)

lemma best_inv_take:
  assumes "best_inv segs n i b m" and "i < length segs"
    and "can_accommodate (segs ! i) n" and "segment_size (segs ! i) < m"
  shows "best_inv segs n (i + 1) (Some i) (segment_size (segs ! i))"
proof -
  have q: "qualifies segs n i" using assms(2,3) by (simp add: qualifies_can_accommodate)
  have old: "m \<le> segment_size (segs ! j)" if "j < i" "qualifies segs n j" for j
    using assms(1) that by (cases b) (auto simp: best_inv_def le_SIZE_MAX)
  have "segment_size (segs ! i) \<le> segment_size (segs ! j)"
    if "j < i + 1" "qualifies segs n j" for j
  proof (cases "j = i")
    case True
    then show ?thesis by simp
  next
    case False
    then have "j < i" using that(1) by simp
    from old [OF this that(2)] assms(4) show ?thesis by simp
  qed
  moreover have "segment_size (segs ! i) < segment_size (segs ! j)"
    if "j < i" "qualifies segs n j" for j
    using old [OF that] assms(4) by simp
  ultimately show ?thesis using q by (simp add: best_inv_def)
qed

lemma best_inv_skip:
  assumes "best_inv segs n i b m" and "i < length segs"
    and "\<not> (can_accommodate (segs ! i) n \<and> segment_size (segs ! i) < m)"
  shows "best_inv segs n (i + 1) b m"
proof (cases b)
  case None
  have "segment_size (segs ! j) = SIZE_MAX" if "j < i + 1" "qualifies segs n j" for j
  proof (cases "j = i")
    case True
    then show ?thesis
      using assms that(2) None
      by (auto simp: best_inv_def qualifies_can_accommodate not_less_SIZE_MAX)
  next
    case False
    then have "j < i" using that(1) by simp
    then show ?thesis using assms(1) that(2) None by (simp add: best_inv_def)
  qed
  then show ?thesis using assms(1) None by (simp add: best_inv_def)
next
  case (Some k)
  have "m \<le> segment_size (segs ! j)" if "j < i + 1" "qualifies segs n j" for j
  proof (cases "j = i")
    case True
    then show ?thesis
      using assms(2,3) that(2) by (auto simp: qualifies_can_accommodate)
  next
    case False
    then have "j < i" using that(1) by simp
    then show ?thesis using assms(1) that(2) Some by (simp add: best_inv_def)
  qed
  then show ?thesis using assms(1) Some by (simp add: best_inv_def)
qed

lemma best_fit_from_inv:
  "best_inv segs n i b m \<Longrightarrow> i \<le> length segs \<Longrightarrow>
   \<exists>m'. best_inv segs n (length segs) (best_fit_from segs n i b m) m'"
proof (induction segs n i b m rule: best_fit_from.induct)
  case (1 segs n i b m)
  show ?case
  proof (cases "i < length segs")
    case False
    then have "best_fit_from segs n i b m = b" by (subst best_fit_from.simps) simp
    moreover have "i = length segs" using False "1.prems"(2) by simp
    ultimately show ?thesis using "1.prems"(1) by auto
  next
    case True
    show ?thesis
    proof (cases "can_accommodate (segs ! i) n \<and> segment_size (segs ! i) < m")
      case take: True
      have "best_inv segs n (i + 1) (Some i) (segment_size (segs ! i))"
        using best_inv_take [OF "1.prems"(1) True] take by simp
      from "1.IH"(1) [OF True take this] True
      have "\<exists>m'. best_inv segs n (length segs)
              (best_fit_from segs n (i + 1) (Some i) (segment_size (segs ! i))) m'"
        by simp
      moreover have "best_fit_from segs n i b m
                       = best_fit_from segs n (i + 1) (Some i) (segment_size (segs ! i))"
        using True take by (subst best_fit_from.simps) simp
      ultimately show ?thesis by simp
    next
      case skip: False
      have "best_inv segs n (i + 1) b m"
        using best_inv_skip [OF "1.prems"(1) True skip] .
      from "1.IH"(2) [OF True skip this] True
      have "\<exists>m'. best_inv segs n (length segs) (best_fit_from segs n (i + 1) b m) m'"
        by simp
      moreover have "best_fit_from segs n i b m = best_fit_from segs n (i + 1) b m"
        using True skip by (subst best_fit_from.simps) auto
      ultimately show ?thesis by simp
    qed
  qed
qed

lemma worst_inv_take:
  assumes "worst_inv segs n i b m" and "i < length segs"
    and "can_accommodate (segs ! i) n" and "segment_size (segs ! i) > m"
  shows "worst_inv segs n (i + 1) (Some i) (segment_size (segs ! i))"
proof -
  have q: "qualifies segs n i" using assms(2,3) by (simp add: qualifies_can_accommodate)
  have old: "segment_size (segs ! j) \<le> m" if "j < i" "qualifies segs n j" for j
    using assms(1) that by (cases b) (auto simp: worst_inv_def)
  have "segment_size (segs ! j) \<le> segment_size (segs ! i)"
    if "j < i + 1" "qualifies segs n j" for j
  proof (cases "j = i")
    case True
    then show ?thesis by simp
  next
    case False
    then have "j < i" using that(1) by simp
    from old [OF this that(2)] assms(4) show ?thesis by simp
  qed
  moreover have "segment_size (segs ! j) < segment_size (segs ! i)"
    if "j < i" "qualifies segs n j" for j
    using old [OF that] assms(4) by simp
  ultimately show ?thesis using q by (simp add: worst_inv_def)
qed

lemma worst_inv_skip:
  assumes "worst_inv segs n i b m" and "i < length segs"
    and "\<not> (can_accommodate (segs ! i) n \<and> segment_size (segs ! i) > m)"
  shows "worst_inv segs n (i + 1) b m"
proof (cases b)
  case None
  have "segment_size (segs ! j) = 0" if "j < i + 1" "qualifies segs n j" for j
  proof (cases "j = i")
    case True
    then show ?thesis
      using assms that(2) None
      by (auto simp: worst_inv_def qualifies_can_accommodate word_gt_0)
  next
    case False
    then have "j < i" using that(1) by simp
    then show ?thesis using assms(1) that(2) None by (simp add: worst_inv_def)
  qed
  then show ?thesis using assms(1) None by (simp add: worst_inv_def)
next
  case (Some k)
  have "segment_size (segs ! j) \<le> m" if "j < i + 1" "qualifies segs n j" for j
  proof (cases "j = i")
    case True
    then show ?thesis
      using assms(2,3) that(2) by (auto simp: qualifies_can_accommodate)
  next
    case False
    then have "j < i" using that(1) by simp
    then show ?thesis using assms(1) that(2) Some by (simp add: worst_inv_def)
  qed
  then show ?thesis using assms(1) Some by (simp add: worst_inv_def)
qed

lemma worst_fit_from_inv:
  "worst_inv segs n i b m \<Longrightarrow> i \<le> length segs \<Longrightarrow>
   \<exists>m'. worst_inv segs n (length segs) (worst_fit_from segs n i b m) m'"
proof (induction segs n i b m rule: worst_fit_from.induct)
  case (1 segs n i b m)
  show ?case
  proof (cases "i < length segs")
    case False
    then have "worst_fit_from segs n i b m = b" by (subst worst_fit_from.simps) simp
    moreover have "i = length segs" using False "1.prems"(2) by simp
    ultimately show ?thesis using "1.prems"(1) by auto
  next
    case True
    show ?thesis
    proof (cases "can_accommodate (segs ! i) n \<and> segment_size (segs ! i) > m")
      case take: True
      have "worst_inv segs n (i + 1) (Some i) (segment_size (segs ! i))"
        using worst_inv_take [OF "1.prems"(1) True] take by simp
      from "1.IH"(1) [OF True take this] True
      have "\<exists>m'. worst_inv segs n (length segs)
              (worst_fit_from segs n (i + 1) (Some i) (segment_size (segs ! i))) m'"
        by simp
      moreover have "worst_fit_from segs n i b m
                       = worst_fit_from segs n (i + 1) (Some i) (segment_size (segs ! i))"
        using True take by (subst worst_fit_from.simps) simp
      ultimately show ?thesis by simp
    next
      case skip: False
      have "worst_inv segs n (i + 1) b m"
        using worst_inv_skip [OF "1.prems"(1) True skip] .
      from "1.IH"(2) [OF True skip this] True
      have "\<exists>m'. worst_inv segs n (length segs) (worst_fit_from segs n (i + 1) b m) m'"
        by simp
      moreover have "worst_fit_from segs n i b m = worst_fit_from segs n (i + 1) b m"
        using True skip by (subst worst_fit_from.simps) auto
      ultimately show ?thesis by simp
    qed
  qed
qed

text \<open>
  Worst fit meets its specification for every layout and every non-zero request.
\<close>

lemma worst_fit_meets_spec:
  assumes "n \<noteq> 0"
  shows "spec_worst_fit segs n (find_suitable_segment_worst_fit segs n)"
proof -
  have "worst_inv segs n 0 None 0" by (simp add: worst_inv_def)
  from worst_fit_from_inv [OF this]
  obtain m' where inv: "worst_inv segs n (length segs) (find_suitable_segment_worst_fit segs n) m'"
    by (auto simp: find_suitable_segment_worst_fit_def)
  show ?thesis
  proof (cases "find_suitable_segment_worst_fit segs n")
    case None
    have "\<not> qualifies segs n j" if "j < length segs" for j
    proof
      assume q: "qualifies segs n j"
      then have "segment_size (segs ! j) = 0" using inv None that by (simp add: worst_inv_def)
      then show False using q assms by (simp add: qualifies_def)
    qed
    then show ?thesis using None by (simp add: spec_worst_fit_def)
  next
    case (Some k)
    then show ?thesis using inv by (auto simp: spec_worst_fit_def worst_inv_def)
  qed
qed

text \<open>
  Best fit meets its specification except in one case: when segments qualify and all
  of them have size \<open>SIZE_MAX\<close>, the search returns \<open>-1\<close>.
\<close>

lemma best_fit_meets_spec_or_SIZE_MAX:
  "spec_best_fit segs n (find_suitable_segment_best_fit segs n)
   \<or> (find_suitable_segment_best_fit segs n = None
      \<and> (\<exists>j<length segs. qualifies segs n j)
      \<and> (\<forall>j<length segs. qualifies segs n j \<longrightarrow> segment_size (segs ! j) = SIZE_MAX))"
proof -
  have "best_inv segs n 0 None SIZE_MAX" by (simp add: best_inv_def)
  from best_fit_from_inv [OF this]
  obtain m' where inv: "best_inv segs n (length segs) (find_suitable_segment_best_fit segs n) m'"
    by (auto simp: find_suitable_segment_best_fit_def)
  show ?thesis
  proof (cases "find_suitable_segment_best_fit segs n")
    case None
    then have "\<forall>j<length segs. qualifies segs n j \<longrightarrow> segment_size (segs ! j) = SIZE_MAX"
      using inv by (simp add: best_inv_def)
    then show ?thesis using None by (auto simp: spec_best_fit_def)
  next
    case (Some k)
    then show ?thesis using inv by (auto simp: spec_best_fit_def best_inv_def)
  qed
qed

lemma best_fit_meets_spec:
  assumes "\<forall>j<length segs. qualifies segs n j \<longrightarrow> segment_size (segs ! j) \<noteq> SIZE_MAX"
  shows "spec_best_fit segs n (find_suitable_segment_best_fit segs n)"
  using best_fit_meets_spec_or_SIZE_MAX [of segs n] assms by blast

text \<open>
  C5. The claim: for every layout and every non-zero request, best fit selects the
  qualifying free segment of minimum size and worst fit the one of maximum size,
  earliest index on ties. Worst fit does (\<open>worst_fit_meets_spec\<close>). Best fit does not
  when the only qualifying segments have size \<open>SIZE_MAX\<close>: the running minimum starts
  at \<open>SIZE_MAX\<close> and is compared with \<open><\<close>, so such a segment is never chosen. On a pool
  initialized with \<open>SIZE_MAX\<close> bytes, a request for one byte fails under best fit and
  succeeds under first fit and worst fit.
\<close>

theorem best_fit_misses_SIZE_MAX_segment:
  "qualifies (heap_segments (initialize_memory_pool new_PhysicalMemorySimulator SIZE_MAX)) 1 0
   \<and> find_suitable_segment_best_fit
        (heap_segments (initialize_memory_pool new_PhysicalMemorySimulator SIZE_MAX)) 1 = None
   \<and> fst (allocate_memory_block
        (set_allocation_strategy
          (initialize_memory_pool new_PhysicalMemorySimulator SIZE_MAX) BEST_FIT) 1) = - 1
   \<and> fst (allocate_memory_block
        (set_allocation_strategy
          (initialize_memory_pool new_PhysicalMemorySimulator SIZE_MAX) FIRST_FIT) 1) = 1
   \<and> fst (allocate_memory_block
        (set_allocation_strategy
          (initialize_memory_pool new_PhysicalMemorySimulator SIZE_MAX) WORST_FIT) 1) = 1"
proof -
  let ?segs = "heap_segments (initialize_memory_pool new_PhysicalMemorySimulator SIZE_MAX)"
  have segs: "?segs = [\<lparr>base_address = 0, segment_size = SIZE_MAX,
                        is_available = True, process_id = - 1\<rparr>]"
    by (simp add: initialize_memory_pool_def)
  have q: "qualifies ?segs 1 0"
    unfolding segs by (simp add: qualifies_def le_SIZE_MAX)
  have b: "find_suitable_segment_best_fit ?segs 1 = None"
    unfolding segs by code_simp
  have "fst (allocate_memory_block
        (set_allocation_strategy
          (initialize_memory_pool new_PhysicalMemorySimulator SIZE_MAX) BEST_FIT) 1) = - 1"
    by code_simp
  moreover have "fst (allocate_memory_block
        (set_allocation_strategy
          (initialize_memory_pool new_PhysicalMemorySimulator SIZE_MAX) FIRST_FIT) 1) = 1"
    by code_simp
  moreover have "fst (allocate_memory_block
        (set_allocation_strategy
          (initialize_memory_pool new_PhysicalMemorySimulator SIZE_MAX) WORST_FIT) 1) = 1"
    by code_simp
  ultimately show ?thesis using q b by simp
qed

text \<open>The result of best fit on that pool is not the one the specification asks for.\<close>

lemma best_fit_SIZE_MAX_not_spec:
  "\<not> spec_best_fit
      (heap_segments (initialize_memory_pool new_PhysicalMemorySimulator SIZE_MAX)) 1
      (find_suitable_segment_best_fit
        (heap_segments (initialize_memory_pool new_PhysicalMemorySimulator SIZE_MAX)) 1)"
proof -
  let ?segs = "heap_segments (initialize_memory_pool new_PhysicalMemorySimulator SIZE_MAX)"
  have segs: "?segs = [\<lparr>base_address = 0, segment_size = SIZE_MAX,
                        is_available = True, process_id = - 1\<rparr>]"
    by (simp add: initialize_memory_pool_def)
  have q: "qualifies ?segs 1 0"
    unfolding segs by (simp add: qualifies_def le_SIZE_MAX)
  have b: "find_suitable_segment_best_fit ?segs 1 = None"
    unfolding segs by code_simp
  have "\<not> spec_best_fit ?segs 1 None"
    using q by (auto simp: spec_best_fit_def initialize_memory_pool_def)
  then show ?thesis using b by simp
qed

end
